theory Spec2Isabelle
  imports Complex_Main "HOL-Library.Multiset"
begin

section \<open>Treatment-effect estimators of \<^verbatim>\<open>testbed.py\<close>\<close>

text \<open>
  The estimators work on three arrays: the outcomes \<open>Y\<close> (a float vector), the treatment
  indicator \<open>D\<close> (an integer vector, 1 = treated, 0 = control) and the covariates \<open>X\<close>
  (an \<open>N\<close>-by-\<open>k\<close> float matrix, here a list of rows).  Arithmetic is exact: a finite float is
  a \<^typ>\<open>real\<close>.  The not-a-number value is kept, because the without-replacement matcher
  writes it into its control pool as a mark: an array cell that may hold it has type
  \<open>fnum\<close>.  Rounding, overflow and infinities are outside the model.

  Every exception that the source or a called numpy routine can raise is a value of
  \<open>error\<close>; a function that can raise returns \<open>error + 'a\<close>.
\<close>

datatype fnum = Val real | NaN

datatype error = LinAlgError | ValueError | IndexError | FitError

type_synonym vec = "real list"
type_synonym mat = "real list list"

subsection \<open>Float arithmetic with not-a-number\<close>

fun fadd :: "fnum \<Rightarrow> fnum \<Rightarrow> fnum" where
  "fadd (Val a) (Val b) = Val (a + b)"
| "fadd _ _ = NaN"

fun fsub :: "fnum \<Rightarrow> fnum \<Rightarrow> fnum" where
  "fsub (Val a) (Val b) = Val (a - b)"
| "fsub _ _ = NaN"

fun fmul :: "fnum \<Rightarrow> fnum \<Rightarrow> fnum" where
  "fmul (Val a) (Val b) = Val (a * b)"
| "fmul _ _ = NaN"

text \<open>\<^verbatim>\<open>a.sum()\<close> of a float vector: the empty sum is 0, any not-a-number entry makes the sum one.\<close>

definition fsum :: "fnum list \<Rightarrow> fnum" where
  "fsum xs = foldr fadd xs (Val 0)"

definition fdot :: "fnum list \<Rightarrow> fnum list \<Rightarrow> fnum" where
  "fdot xs ys = fsum (map2 fmul xs ys)"

definition dotp :: "vec \<Rightarrow> vec \<Rightarrow> real" where
  "dotp xs ys = sum_list (map2 (*) xs ys)"

definition vsub :: "vec \<Rightarrow> vec \<Rightarrow> vec" where
  "vsub xs ys = map2 (-) xs ys"

text \<open>\<^verbatim>\<open>a.mean()\<close>: numpy returns not-a-number (with a warning, no exception) for an empty array.\<close>

definition mean :: "vec \<Rightarrow> fnum" where
  "mean xs = (if xs = [] then NaN else Val (sum_list xs / real (length xs)))"

subsection \<open>Indexing\<close>

text \<open>
  \<^verbatim>\<open>a[mask]\<close> with a boolean mask keeps the entries (rows) where the mask is true, in order.
  \<^verbatim>\<open>a[idx]\<close> with an integer index array picks the entries in the order of the indices and
  raises IndexError for an index out of range.  Both build a new array.
\<close>

definition select :: "'a list \<Rightarrow> bool list \<Rightarrow> 'a list" where
  "select xs msk = map fst (filter snd (zip xs msk))"

definition eq_mask :: "int list \<Rightarrow> int \<Rightarrow> bool list" where
  "eq_mask D v = map (\<lambda>d. d = v) D"

definition take_idx :: "'a list \<Rightarrow> nat list \<Rightarrow> error + 'a list" where
  "take_idx xs idx =
     (if \<forall>i \<in> set idx. i < length xs then Inr (map (\<lambda>i. xs ! i) idx) else Inl IndexError)"

text \<open>
  \<^verbatim>\<open>a.argmin()\<close>: the index of the first smallest entry; a not-a-number entry counts as
  smallest, so the first one wins; ValueError on an empty array.
  \<^verbatim>\<open>np.nanargmin(a)\<close>: the same with the not-a-number entries ignored; ValueError when
  nothing is left.
\<close>

fun nanargmin_scan :: "fnum list \<Rightarrow> (nat \<times> real) option" where
  "nanargmin_scan [] = None"
| "nanargmin_scan (x # xs) =
     (case (x, nanargmin_scan xs) of
        (NaN, None) \<Rightarrow> None
      | (NaN, Some (j, m)) \<Rightarrow> Some (Suc j, m)
      | (Val v, None) \<Rightarrow> Some (0, v)
      | (Val v, Some (j, m)) \<Rightarrow> if v \<le> m then Some (0, v) else Some (Suc j, m))"

definition nanargmin :: "fnum list \<Rightarrow> error + nat" where
  "nanargmin ds = (case nanargmin_scan ds of None \<Rightarrow> Inl ValueError | Some (j, m) \<Rightarrow> Inr j)"

definition argmin :: "fnum list \<Rightarrow> error + nat" where
  "argmin ds =
     (if NaN \<in> set ds then Inr (length (takeWhile (\<lambda>d. d \<noteq> NaN) ds)) else nanargmin ds)"

subsection \<open>Covariance and matrix inverse\<close>

text \<open>
  \<^verbatim>\<open>np.cov(X, rowvar=0)\<close>: the sample covariance of the columns of \<open>X\<close>, with divisor
  \<open>N - 1\<close>.  numpy squeezes the result: with one covariate column, and with a single
  row (which it reads as one variable), the result is a 0-dimensional array, not a matrix.
  \<^verbatim>\<open>np.linalg.inv\<close> rejects a 0-dimensional array and a singular matrix with LinAlgError.
  The inverse is computed exactly, by cofactors.
\<close>

datatype cov_array = ZeroDim | Mat2 mat

definition np_cov :: "mat \<Rightarrow> cov_array" where
  "np_cov X =
     (let cols = transpose X; N = length X;
          dev = map (\<lambda>c. map (\<lambda>x. x - sum_list c / real N) c) cols
      in if X = [] then Mat2 []
         else if N = 1 \<or> length cols = 1 then ZeroDim
         else Mat2 (map (\<lambda>a. map (\<lambda>b. dotp a b / real (N - 1)) dev) dev))"

definition remove_nth :: "nat \<Rightarrow> 'a list \<Rightarrow> 'a list" where
  "remove_nth i xs = take i xs @ drop (Suc i) xs"

fun det :: "mat \<Rightarrow> real" where
  "det [] = 1"
| "det (r # rs) =
     sum_list (map (\<lambda>j. (- 1) ^ j * (r ! j) * det (map (remove_nth j) rs)) [0..<length r])"

definition minor_mat :: "mat \<Rightarrow> nat \<Rightarrow> nat \<Rightarrow> mat" where
  "minor_mat V i j = map (remove_nth j) (remove_nth i V)"

definition inv_mat :: "mat \<Rightarrow> error + mat" where
  "inv_mat V =
     (let d = det V; n = length V
      in if d = 0 then Inl LinAlgError
         else Inr (map (\<lambda>i. map (\<lambda>j. (- 1) ^ (i + j) * det (minor_mat V j i) / d) [0..<n]) [0..<n]))"

fun linalg_inv :: "cov_array \<Rightarrow> error + mat" where
  "linalg_inv ZeroDim = Inl LinAlgError"
| "linalg_inv (Mat2 V) = inv_mat V"

subsection \<open>Library routines taken as parameters\<close>

text \<open>
  Three fitting routines of the libraries are called by the source and are not part of it.
  The development is parametric in them:
  \<^item> \<open>ols y W\<close> stands for \<^verbatim>\<open>sm.OLS(y, W).fit().params\<close>, the coefficient vector of a
    least-squares regression of \<open>y\<close> on the columns of \<open>W\<close>;
  \<^item> \<open>lstsq A b\<close> stands for \<^verbatim>\<open>np.linalg.lstsq(A, b)[0]\<close>;
  \<^item> \<open>logit D X\<close> stands for \<^verbatim>\<open>sm.Logit(D, X).fit(disp=False).predict()\<close>, the fitted
    propensity score of every unit.
  Each may raise.  What a theorem needs of them is a hypothesis of that theorem.
\<close>

type_synonym ols_fit = "vec \<Rightarrow> mat \<Rightarrow> error + vec"
type_synonym lstsq_fit = "mat \<Rightarrow> vec \<Rightarrow> error + vec"
type_synonym logit_fit = "int list \<Rightarrow> mat \<Rightarrow> error + vec"

text \<open>
  \<^verbatim>\<open>sm.add_constant(x)\<close> puts a column of ones in front of \<open>x\<close>.  With its default
  \<^verbatim>\<open>has_constant='skip'\<close> it returns \<open>x\<close> unchanged when some column of \<open>x\<close> is already a
  nonzero constant.  The column test reduces over the rows and raises on an array with
  no row.
\<close>

definition has_nonzero_const :: "mat \<Rightarrow> bool" where
  "has_nonzero_const x =
     list_ex (\<lambda>c. (\<forall>a \<in> set c. a = hd c) \<and> (\<forall>a \<in> set c. a \<noteq> 0)) (transpose x)"

definition add_constant :: "mat \<Rightarrow> error + mat" where
  "add_constant x =
     (if x = [] then Inl ValueError
      else if has_nonzero_const x then Inr x
      else Inr (map ((#) 1) x))"

text \<open>\<^verbatim>\<open>np.dot(M, v)\<close> of a matrix and a vector raises ValueError unless every row is as long as \<open>v\<close>.\<close>

definition mat_vec :: "mat \<Rightarrow> vec \<Rightarrow> error + vec" where
  "mat_vec M v =
     (if \<forall>r \<in> set M. length r = length v then Inr (map (\<lambda>r. dotp r v) M) else Inl ValueError)"

subsection \<open>Distance engine\<close>

text \<open>
  \<open>sub_rows X_c x\<close> is \<^verbatim>\<open>dX = X_c - X_t[i]\<close>.  \<open>sq_norms dX\<close> is
  \<^verbatim>\<open>(dX**2).sum(axis=1)\<close> and \<open>quad_forms Vi dX\<close> is \<^verbatim>\<open>(dX.dot(Vi)*dX).sum(axis=1)\<close>.
  \<open>row_dists\<close> is the distance expression of one loop iteration: under the Mahalanobis
  metric the source inverts \<open>V\<close> inside the loop, so the inversion is attempted once per
  treated unit and not at all when there is none.
\<close>

definition lift :: "mat \<Rightarrow> fnum list list" where
  "lift X = map (map Val) X"

definition sub_rows :: "fnum list list \<Rightarrow> vec \<Rightarrow> fnum list list" where
  "sub_rows X_c x = map (\<lambda>r. map2 fsub r (map Val x)) X_c"

definition sq_norms :: "fnum list list \<Rightarrow> fnum list" where
  "sq_norms dX = map (\<lambda>d. fsum (map (\<lambda>a. fmul a a) d)) dX"

definition fvec_mat :: "fnum list \<Rightarrow> mat \<Rightarrow> fnum list" where
  "fvec_mat d Vi = map (\<lambda>c. fdot d (map Val c)) (transpose Vi)"

definition quad_forms :: "mat \<Rightarrow> fnum list list \<Rightarrow> fnum list" where
  "quad_forms Vi dX = map (\<lambda>d. fsum (map2 fmul (fvec_mat d Vi) d)) dX"

definition row_dists :: "bool \<Rightarrow> cov_array \<Rightarrow> fnum list list \<Rightarrow> error + fnum list" where
  "row_dists mahalanobis V dX =
     (if mahalanobis
      then (case linalg_inv V of Inl e \<Rightarrow> Inl e | Inr Vi \<Rightarrow> Inr (quad_forms Vi dX))
      else Inr (sq_norms dX))"

subsection \<open>Individual effects\<close>

definition raw_ITT :: "vec \<Rightarrow> vec \<Rightarrow> nat list \<Rightarrow> vec" where
  "raw_ITT Y_c Y_t match_index = vsub Y_t (map (\<lambda>j. Y_c ! j) match_index)"

definition bias_corrected_ITT ::
  "ols_fit \<Rightarrow> vec \<Rightarrow> vec \<Rightarrow> mat \<Rightarrow> mat \<Rightarrow> nat list \<Rightarrow> error + vec" where
  "bias_corrected_ITT ols Y_c Y_t X_c X_t match_index =
     (let Y_m = map (\<lambda>j. Y_c ! j) match_index; X_m = map (\<lambda>j. X_c ! j) match_index
      in case add_constant X_m of Inl e \<Rightarrow> Inl e | Inr W \<Rightarrow>
         (case ols Y_m W of Inl e \<Rightarrow> Inl e | Inr params \<Rightarrow>
          (case mat_vec (map2 vsub X_t X_m) (tl params) of Inl e \<Rightarrow> Inl e | Inr B \<Rightarrow>
             Inr (vsub (vsub Y_t Y_m) B))))"

subsection \<open>Matching with replacement\<close>

fun wr_loop :: "bool \<Rightarrow> cov_array \<Rightarrow> fnum list list \<Rightarrow> mat \<Rightarrow> error + nat list" where
  "wr_loop mahalanobis V X_c [] = Inr []"
| "wr_loop mahalanobis V X_c (x # X_t) =
     (case row_dists mahalanobis V (sub_rows X_c x) of Inl e \<Rightarrow> Inl e | Inr ds \<Rightarrow>
      (case argmin ds of Inl e \<Rightarrow> Inl e | Inr j \<Rightarrow>
       (case wr_loop mahalanobis V X_c X_t of Inl e \<Rightarrow> Inl e | Inr js \<Rightarrow> Inr (j # js))))"

text \<open>
  The source function returns only the mean of the individual effects.  The model names
  the two values it computes on the way, the match assignment and the vector \<open>ITT\<close>.
\<close>

definition MatchingWithReplacement_match :: "bool \<Rightarrow> int list \<Rightarrow> mat \<Rightarrow> error + nat list" where
  "MatchingWithReplacement_match mahalanobis D X =
     wr_loop mahalanobis (np_cov X) (lift (select X (eq_mask D 0))) (select X (eq_mask D 1))"

definition MatchingWithReplacement_ITT ::
  "ols_fit \<Rightarrow> vec \<Rightarrow> int list \<Rightarrow> mat \<Rightarrow> bool \<Rightarrow> bool \<Rightarrow> error + vec" where
  "MatchingWithReplacement_ITT ols Y D X mahalanobis bias_correction =
     (let Y_c = select Y (eq_mask D 0); Y_t = select Y (eq_mask D 1);
          X_c = select X (eq_mask D 0); X_t = select X (eq_mask D 1)
      in case MatchingWithReplacement_match mahalanobis D X of Inl e \<Rightarrow> Inl e
         | Inr match_index \<Rightarrow>
             if bias_correction then bias_corrected_ITT ols Y_c Y_t X_c X_t match_index
             else Inr (raw_ITT Y_c Y_t match_index))"

definition MatchingWithReplacement ::
  "ols_fit \<Rightarrow> vec \<Rightarrow> int list \<Rightarrow> mat \<Rightarrow> bool \<Rightarrow> bool \<Rightarrow> error + fnum" where
  "MatchingWithReplacement ols Y D X mahalanobis bias_correction =
     map_sum id mean (MatchingWithReplacement_ITT ols Y D X mahalanobis bias_correction)"

subsection \<open>Matching without replacement\<close>

text \<open>
  \<^verbatim>\<open>np.argsort(pscore)[::-1]\<close>: the positions in ascending order of score, reversed.  Among
  equal scores numpy's order is that of a stable sort on short arrays and unspecified on
  long ones; the model sorts stably.
\<close>

definition argsort :: "vec \<Rightarrow> nat list" where
  "argsort ps = map snd (sort_key fst (zip ps [0..<length ps]))"

definition sort_by_pscore ::
  "logit_fit \<Rightarrow> vec \<Rightarrow> int list \<Rightarrow> mat \<Rightarrow> error + (vec \<times> int list \<times> mat)" where
  "sort_by_pscore logit Y D X =
     (case logit D X of Inl e \<Rightarrow> Inl e | Inr pscore \<Rightarrow>
      (let order = rev (argsort pscore)
       in case take_idx Y order of Inl e \<Rightarrow> Inl e | Inr Y' \<Rightarrow>
          (case take_idx D order of Inl e \<Rightarrow> Inl e | Inr D' \<Rightarrow>
           (case take_idx X order of Inl e \<Rightarrow> Inl e | Inr X' \<Rightarrow> Inr (Y', D', X')))))"

text \<open>
  The greedy loop.  Its state is the control pool \<open>X_c\<close>: after a control is matched its row
  is overwritten with not-a-number (\<^verbatim>\<open>X_c[match_index[i]] = np.nan\<close>).  The loop returns
  the assignment and the pool as it is left.
\<close>

definition nan_row :: "fnum list \<Rightarrow> fnum list" where
  "nan_row r = map (\<lambda>_. NaN) r"

fun wor_loop ::
  "bool \<Rightarrow> cov_array \<Rightarrow> fnum list list \<Rightarrow> mat \<Rightarrow> error + (nat list \<times> fnum list list)" where
  "wor_loop mahalanobis V X_c [] = Inr ([], X_c)"
| "wor_loop mahalanobis V X_c (x # X_t) =
     (case row_dists mahalanobis V (sub_rows X_c x) of Inl e \<Rightarrow> Inl e | Inr ds \<Rightarrow>
      (case nanargmin ds of Inl e \<Rightarrow> Inl e | Inr j \<Rightarrow>
       (case wor_loop mahalanobis V (X_c[j := nan_row (X_c ! j)]) X_t of Inl e \<Rightarrow> Inl e
        | Inr (js, X_c') \<Rightarrow> Inr (j # js, X_c'))))"

definition greedy_match ::
  "bool \<Rightarrow> int list \<Rightarrow> mat \<Rightarrow> error + (nat list \<times> fnum list list)" where
  "greedy_match mahalanobis D X =
     wor_loop mahalanobis (np_cov X) (lift (select X (eq_mask D 0))) (select X (eq_mask D 1))"

text \<open>
  \<open>greedy_ITT\<close> is the body of the source function from the split of the sorted data on
  (lines 176 to 203).  With bias correction the source binds \<open>X_c\<close> afresh to
  \<^verbatim>\<open>X[D==0]\<close> before the regression; without it the pool is not read again.
\<close>

definition greedy_ITT ::
  "ols_fit \<Rightarrow> vec \<Rightarrow> int list \<Rightarrow> mat \<Rightarrow> bool \<Rightarrow> bool \<Rightarrow> error + vec" where
  "greedy_ITT ols Y D X mahalanobis bias_correction =
     (let Y_c = select Y (eq_mask D 0); Y_t = select Y (eq_mask D 1);
          X_t = select X (eq_mask D 1)
      in case greedy_match mahalanobis D X of Inl e \<Rightarrow> Inl e
         | Inr (match_index, pool) \<Rightarrow>
             if bias_correction
             then (let X_c = select X (eq_mask D 0)
                   in bias_corrected_ITT ols Y_c Y_t X_c X_t match_index)
             else Inr (raw_ITT Y_c Y_t match_index))"

definition MatchingWithoutReplacement_ITT ::
  "ols_fit \<Rightarrow> logit_fit \<Rightarrow> vec \<Rightarrow> int list \<Rightarrow> mat \<Rightarrow> bool \<Rightarrow> bool \<Rightarrow> error + vec" where
  "MatchingWithoutReplacement_ITT ols logit Y D X mahalanobis bias_correction =
     (case sort_by_pscore logit Y D X of Inl e \<Rightarrow> Inl e
      | Inr (Y', D', X') \<Rightarrow> greedy_ITT ols Y' D' X' mahalanobis bias_correction)"

text \<open>
  The entry point.  When the guard \<^verbatim>\<open>2*sum(D) > len(D)\<close> holds the source prints a notice
  and returns \<^verbatim>\<open>MatchingWithReplacement(Y, D, X, mahalanobis)\<close>: the call passes four
  arguments, so the callee's \<open>bias_correction\<close> takes its default, \<open>True\<close>.
\<close>

definition not_enough_controls :: "int list \<Rightarrow> bool" where
  "not_enough_controls D \<longleftrightarrow> 2 * sum_list D > int (length D)"

definition MatchingWithoutReplacement_stdout :: "int list \<Rightarrow> string list" where
  "MatchingWithoutReplacement_stdout D =
     (if not_enough_controls D
      then [''Not enough control units, matching with replacement instead.''] else [])"

definition MatchingWithoutReplacement ::
  "ols_fit \<Rightarrow> logit_fit \<Rightarrow> vec \<Rightarrow> int list \<Rightarrow> mat \<Rightarrow> bool \<Rightarrow> bool \<Rightarrow> error + fnum" where
  "MatchingWithoutReplacement ols logit Y D X mahalanobis bias_correction =
     (if not_enough_controls D then MatchingWithReplacement ols Y D X mahalanobis True
      else map_sum id mean
             (MatchingWithoutReplacement_ITT ols logit Y D X mahalanobis bias_correction))"

definition MatchingEstimates ::
  "ols_fit \<Rightarrow> logit_fit \<Rightarrow> vec \<Rightarrow> int list \<Rightarrow> mat \<Rightarrow> bool \<Rightarrow> bool \<Rightarrow> error + fnum" where
  "MatchingEstimates ols logit Y D X with_replacement mahalanobis =
     (if with_replacement then MatchingWithReplacement ols Y D X mahalanobis True
      else MatchingWithoutReplacement ols logit Y D X mahalanobis True)"

subsection \<open>Distances between covariate vectors\<close>

text \<open>
  The squared Euclidean distance and the quadratic form of the difference of two
  covariate vectors, as real numbers.  The distance engine computes these on every
  row that holds no not-a-number (\<open>sq_norms_lift\<close>, \<open>quad_forms_lift\<close>).
\<close>

definition sq_dist :: "vec \<Rightarrow> vec \<Rightarrow> real" where
  "sq_dist r x = sum_list (map (\<lambda>a. a * a) (vsub r x))"

definition quad_dist :: "mat \<Rightarrow> vec \<Rightarrow> vec \<Rightarrow> real" where
  "quad_dist Vi r x = dotp (map (\<lambda>c. dotp (vsub r x) c) (transpose Vi)) (vsub r x)"

text \<open>
  A least-squares solver by the normal equations, \<open>(W\<^sup>T W)\<^sup>-\<^sup>1 W\<^sup>T y\<close>.  It is one
  instance of the parameter \<open>ols\<close>, used to run the estimators on concrete data; it
  raises where the design matrix has not full column rank.
\<close>

definition ols_normal :: ols_fit where
  "ols_normal y W =
     (let Wt = transpose W;
          G = map (\<lambda>a. map (\<lambda>b. dotp a b) Wt) Wt;
          g = map (\<lambda>a. dotp a y) Wt
      in case inv_mat G of Inl e \<Rightarrow> Inl e | Inr Gi \<Rightarrow> Inr (map (\<lambda>r. dotp r g) Gi))"

text \<open>
  The assignment that the without-replacement matcher computes on its greedy path, with
  the pool as the loop leaves it, and the sizes of the two cohorts.
\<close>

definition MatchingWithoutReplacement_match ::
  "logit_fit \<Rightarrow> bool \<Rightarrow> vec \<Rightarrow> int list \<Rightarrow> mat \<Rightarrow> error + (nat list \<times> fnum list list)" where
  "MatchingWithoutReplacement_match logit mahalanobis Y D X =
     (case sort_by_pscore logit Y D X of Inl e \<Rightarrow> Inl e
      | Inr (Y', D', X') \<Rightarrow> greedy_match mahalanobis D' X')"

definition N_treated :: "int list \<Rightarrow> nat" where
  "N_treated D = length (filter (\<lambda>d. d = 1) D)"

definition N_control :: "int list \<Rightarrow> nat" where
  "N_control D = length (filter (\<lambda>d. d = 0) D)"

text \<open>
  A ranker that scores every unit by its position, to run the matcher on concrete data:
  the sorted order is then the reverse of the input order.
\<close>

definition pscore_example :: logit_fit where
  "pscore_example D X = Inr (map real [0..<length D])"

text \<open>
  What the claims say about the individual effects, as a predicate on an assignment \<open>m\<close>
  and an effect vector \<open>itt\<close>: with bias correction, each effect is the outcome difference
  minus the covariate difference times the slopes of the regression of the matched
  controls' outcomes on a column of ones and their covariates; without it, the outcome
  difference.  \<open>coef_per_column\<close> is the one property of the regression routine that is
  used: it returns one coefficient for every column of the design matrix.
\<close>

definition ncols :: "mat \<Rightarrow> nat" where
  "ncols W = length (transpose W)"

definition coef_per_column :: "ols_fit \<Rightarrow> bool" where
  "coef_per_column ols \<longleftrightarrow> (\<forall>y W p. ols y W = Inr p \<longrightarrow> length p = ncols W)"

definition effect_formula ::
  "ols_fit \<Rightarrow> bool \<Rightarrow> vec \<Rightarrow> vec \<Rightarrow> mat \<Rightarrow> mat \<Rightarrow> nat list \<Rightarrow> vec \<Rightarrow> bool" where
  "effect_formula ols bias_correction Y_c Y_t X_c X_t m itt \<longleftrightarrow>
     length itt = length m \<and>
     (if bias_correction
      then \<exists>params. ols (map (\<lambda>j. Y_c ! j) m) (map (\<lambda>j. 1 # X_c ! j) m) = Inr params \<and>
             (\<forall>i < length m. itt ! i = (Y_t ! i - Y_c ! (m ! i))
                                  - dotp (vsub (X_t ! i) (X_c ! (m ! i))) (tl params))
      else \<forall>i < length m. itt ! i = Y_t ! i - Y_c ! (m ! i))"

section \<open>Properties\<close>

subsection \<open>Distances of rows without not-a-number\<close>

lemma fsum_Val: "fsum (map Val zs) = Val (sum_list zs)"
  by (induction zs) (simp_all add: fsum_def)

lemma map2_fsub_Val: "map2 fsub (map Val r) (map Val x) = map Val (vsub r x)"
  by (auto simp: vsub_def zip_map_map)

lemma map2_fmul_Val: "map2 fmul (map Val r) (map Val x) = map Val (map2 (*) r x)"
  by (auto simp: zip_map_map)

lemma fdot_Val: "fdot (map Val r) (map Val x) = Val (dotp r x)"
  by (simp only: fdot_def dotp_def map2_fmul_Val fsum_Val)

lemma sq_norms_lift: "sq_norms (sub_rows (lift X_c) x) = map (\<lambda>r. Val (sq_dist r x)) X_c"
proof -
  have "fsum (map (\<lambda>a. fmul a a) (map Val d)) = Val (sum_list (map (\<lambda>a. a * a) d))" for d
    using fsum_Val [of "map (\<lambda>a. a * a) d"] by (simp add: comp_def)
  then show ?thesis
    by (simp add: sq_norms_def sub_rows_def lift_def sq_dist_def map2_fsub_Val comp_def)
qed

lemma fvec_mat_Val: "fvec_mat (map Val d) Vi = map Val (map (\<lambda>c. dotp d c) (transpose Vi))"
  by (simp add: fvec_mat_def fdot_Val comp_def)

lemma quad_forms_lift:
  "quad_forms Vi (sub_rows (lift X_c) x) = map (\<lambda>r. Val (quad_dist Vi r x)) X_c"
proof -
  have "fsum (map2 fmul (fvec_mat (map Val d) Vi) (map Val d))
          = Val (dotp (map (\<lambda>c. dotp d c) (transpose Vi)) d)" for d
    by (simp only: fvec_mat_Val map2_fmul_Val fsum_Val dotp_def)
  then show ?thesis
    by (simp add: quad_forms_def sub_rows_def lift_def quad_dist_def map2_fsub_Val comp_def)
qed

lemma nanargmin_scan_Val:
  "nanargmin_scan (map Val vs) = Some (j, m) \<Longrightarrow>
     j < length vs \<and> m = vs ! j \<and> (\<forall>i < length vs. m \<le> vs ! i) \<and> (\<forall>i < j. m < vs ! i)"
proof (induction vs arbitrary: j m)
  case Nil
  then show ?case by simp
next
  case (Cons v vs)
  show ?case
  proof (cases "nanargmin_scan (map Val vs)")
    case None
    with Cons.prems have jm: "j = 0" "m = v" by auto
    from None have "vs = []" by (cases vs) (auto split: option.splits prod.splits fnum.splits if_splits)
    with jm show ?thesis by simp
  next
    case (Some p)
    obtain j' m' where p: "p = (j', m')" by (cases p)
    note IH = Cons.IH [OF Some [unfolded p]]
    show ?thesis
    proof (cases "v \<le> m'")
      case True
      with Some p Cons.prems have jm: "j = 0" "m = v" by auto
      from True IH jm show ?thesis by (auto simp: nth_Cons split: nat.splits)
    next
      case False
      with Some p Cons.prems have jm: "j = Suc j'" "m = m'" by auto
      from False IH jm show ?thesis by (auto simp: nth_Cons less_Suc_eq_0_disj split: nat.splits)
    qed
  qed
qed

lemma argmin_Val:
  assumes "argmin (map Val vs) = Inr j"
  shows "j < length vs \<and> (\<forall>i < length vs. vs ! j \<le> vs ! i) \<and> (\<forall>i < j. vs ! j < vs ! i)"
proof -
  have "NaN \<notin> set (map Val vs)" by auto
  with assms have "nanargmin (map Val vs) = Inr j" by (simp add: argmin_def)
  then obtain m where "nanargmin_scan (map Val vs) = Some (j, m)"
    by (auto simp: nanargmin_def split: option.splits)
  from nanargmin_scan_Val [OF this] show ?thesis by blast
qed

lemma wr_loop_nth:
  "wr_loop mh V P X_t = Inr m \<Longrightarrow>
     length m = length X_t \<and>
     (\<forall>i < length X_t. \<exists>ds. row_dists mh V (sub_rows P (X_t ! i)) = Inr ds \<and> argmin ds = Inr (m ! i))"
proof (induction X_t arbitrary: m)
  case Nil
  then show ?case by simp
next
  case (Cons x X_t)
  from Cons.prems obtain ds j js where
    ds: "row_dists mh V (sub_rows P x) = Inr ds" and j: "argmin ds = Inr j"
    and js: "wr_loop mh V P X_t = Inr js" and m: "m = j # js"
    by (auto split: sum.splits)
  from Cons.IH [OF js] ds j m show ?case
    by (auto simp: nth_Cons split: nat.splits)
qed

subsection \<open>Ties in matching with replacement\<close>

text \<open>
  C9.  In matching with replacement the control assigned to a treated unit is the one of
  lowest index among those at minimal distance: its distance is at most that of every
  control, and strictly below that of every control of lower index.  This holds under
  both metrics; under the Mahalanobis metric the assignment exists only if the inversion
  succeeded.  The assignment is a function of \<open>D\<close> and \<open>X\<close> alone, so two runs on the same
  input give the same assignment, and the same effect for the same regression routine.
\<close>

theorem with_replacement_lowest_index:
  assumes m: "MatchingWithReplacement_match mahalanobis D X = Inr m" and i: "i < length m"
  shows "length m = length (select X (eq_mask D 1)) \<and>
    (\<exists>dist. (if mahalanobis then \<exists>Vi. linalg_inv (np_cov X) = Inr Vi \<and> dist = quad_dist Vi
              else dist = sq_dist) \<and>
       (let X_c = select X (eq_mask D 0); x = select X (eq_mask D 1) ! i
        in m ! i < length X_c \<and>
           (\<forall>j < length X_c. dist (X_c ! (m ! i)) x \<le> dist (X_c ! j) x) \<and>
           (\<forall>j < m ! i. dist (X_c ! (m ! i)) x < dist (X_c ! j) x)))"
proof -
  define X_c where "X_c = select X (eq_mask D 0)"
  define X_t where "X_t = select X (eq_mask D 1)"
  from m have loop: "wr_loop mahalanobis (np_cov X) (lift X_c) X_t = Inr m"
    by (simp add: MatchingWithReplacement_match_def X_c_def X_t_def)
  from wr_loop_nth [OF loop] i obtain ds where
    len: "length m = length X_t"
    and ds: "row_dists mahalanobis (np_cov X) (sub_rows (lift X_c) (X_t ! i)) = Inr ds"
    and am: "argmin ds = Inr (m ! i)"
    by auto
  show ?thesis
  proof (cases mahalanobis)
    case True
    with ds obtain Vi where Vi: "linalg_inv (np_cov X) = Inr Vi"
      and "ds = quad_forms Vi (sub_rows (lift X_c) (X_t ! i))"
      by (auto simp: row_dists_def split: sum.splits)
    then have "ds = map Val (map (\<lambda>r. quad_dist Vi r (X_t ! i)) X_c)"
      by (auto simp: quad_forms_lift)
    with am have "argmin (map Val (map (\<lambda>r. quad_dist Vi r (X_t ! i)) X_c)) = Inr (m ! i)"
      by simp
    from argmin_Val [OF this] True Vi len show ?thesis
      by (auto simp: X_c_def X_t_def Let_def)
  next
    case False
    with ds have "ds = map Val (map (\<lambda>r. sq_dist r (X_t ! i)) X_c)"
      by (auto simp: row_dists_def sq_norms_lift)
    with am have "argmin (map Val (map (\<lambda>r. sq_dist r (X_t ! i)) X_c)) = Inr (m ! i)"
      by simp
    from argmin_Val [OF this] False len show ?thesis
      by (auto simp: X_c_def X_t_def Let_def)
  qed
qed

lemma tie_example: "MatchingWithReplacement_match False [0, 0, 0, 1] [[2], [0], [2], [1]] = Inr [0]"
  by code_simp

theorem with_replacement_lowest_index_witness:
  "MatchingWithReplacement_match False [0, 0, 0, 1] [[2], [0], [2], [1]] = Inr [0] \<and>
   sq_dist [2] [1] = sq_dist [0] [1] \<and> sq_dist [0] [1] = 1 \<and>
   length (select [[2], [0], [2], [1 :: real]] (eq_mask [0, 0, 0, 1] 1)) = 1"
  using tie_example with_replacement_lowest_index [OF tie_example, of 0]
  by (simp add: sq_dist_def vsub_def select_def eq_mask_def)

subsection \<open>Not-a-number in the distances\<close>

text \<open>
  With \<open>k > 0\<close> covariates, the distance of a pool row is not-a-number exactly when the row
  holds one: a marked row can never be the result of \<open>nanargmin\<close>.
\<close>

lemma fsum_NaN_iff: "fsum zs = NaN \<longleftrightarrow> NaN \<in> set zs"
proof (induction zs)
  case Nil
  then show ?case by (simp add: fsum_def)
next
  case (Cons z zs)
  then show ?case
    by (cases z; cases "fsum zs") (auto simp: fsum_def)
qed

lemma NaN_map2_fsub_iff:
  "length r = length x \<Longrightarrow> NaN \<in> set (map2 fsub r (map Val x)) \<longleftrightarrow> NaN \<in> set r"
proof (induction r x rule: list_induct2)
  case Nil
  then show ?case by simp
next
  case (Cons a r b x)
  then show ?case by (cases a) auto
qed

lemma fmul_NaN_D: "fmul a b = NaN \<Longrightarrow> a = NaN \<or> b = NaN"
  by (cases a; cases b) simp_all

lemma NaN_map2_fmul_D: "NaN \<in> set (map2 fmul a b) \<Longrightarrow> NaN \<in> set a \<or> NaN \<in> set b"
proof -
  assume "NaN \<in> set (map2 fmul a b)"
  then obtain x y where xy: "(x, y) \<in> set (zip a b)" and "fmul x y = NaN"
    by force
  from this(2) have "x = NaN \<or> y = NaN" by (rule fmul_NaN_D)
  with xy show ?thesis
    by (auto dest: set_zip_leftD set_zip_rightD)
qed

lemma NaN_map2_fmul_right:
  "length a = length b \<Longrightarrow> NaN \<in> set b \<Longrightarrow> NaN \<in> set (map2 fmul a b)"
proof (induction a b rule: list_induct2)
  case Nil
  then show ?case by simp
next
  case (Cons x a y b)
  then show ?case by (cases x; cases y) auto
qed

lemma NaN_sq_iff: "NaN \<in> set (map (\<lambda>a. fmul a a) d) \<longleftrightarrow> NaN \<in> set d"
proof (induction d)
  case Nil
  then show ?case by simp
next
  case (Cons a d)
  then show ?case by (cases a) auto
qed

lemma NaN_fvec_mat_D: "NaN \<in> set (fvec_mat d Vi) \<Longrightarrow> NaN \<in> set d"
proof -
  assume "NaN \<in> set (fvec_mat d Vi)"
  then have "NaN \<in> (\<lambda>c. fdot d (map Val c)) ` set (transpose Vi)"
    by (simp add: fvec_mat_def)
  then have "\<exists>c. fdot d (map Val c) = NaN"
    by (metis imageE)
  then obtain c where "fdot d (map Val c) = NaN" ..
  then have "NaN \<in> set (map2 fmul d (map Val c))"
    by (simp add: fdot_def fsum_NaN_iff)
  from NaN_map2_fmul_D [OF this] show "NaN \<in> set d" by auto
qed

lemma sq_norm_NaN_iff:
  "length r = length x \<Longrightarrow>
     fsum (map (\<lambda>a. fmul a a) (map2 fsub r (map Val x))) = NaN \<longleftrightarrow> NaN \<in> set r"
  by (simp only: fsum_NaN_iff NaN_sq_iff NaN_map2_fsub_iff)

lemma quad_form_NaN_iff:
  assumes "length r = length x" and "length (transpose Vi) = length x"
  shows "fsum (map2 fmul (fvec_mat (map2 fsub r (map Val x)) Vi) (map2 fsub r (map Val x))) = NaN
           \<longleftrightarrow> NaN \<in> set r"
proof -
  let ?d = "map2 fsub r (map Val x)"
  have len: "length (fvec_mat ?d Vi) = length ?d"
    using assms by (simp add: fvec_mat_def)
  have "NaN \<in> set (map2 fmul (fvec_mat ?d Vi) ?d) \<longleftrightarrow> NaN \<in> set ?d"
    using NaN_map2_fmul_D [of "fvec_mat ?d Vi" ?d] NaN_fvec_mat_D [of ?d Vi]
      NaN_map2_fmul_right [OF len] by blast
  then show ?thesis
    using assms(1) by (simp only: fsum_NaN_iff NaN_map2_fsub_iff)
qed

lemma row_dists_pool:
  assumes ds: "row_dists mh V (sub_rows P x) = Inr ds"
    and rows: "\<forall>r \<in> set P. length r = length x"
    and inv: "\<forall>Vi. linalg_inv V = Inr Vi \<longrightarrow> length (transpose Vi) = length x"
  shows "length ds = length P \<and> (\<forall>j < length P. ds ! j = NaN \<longleftrightarrow> NaN \<in> set (P ! j))"
proof (cases mh)
  case True
  with ds obtain Vi where Vi: "linalg_inv V = Inr Vi"
    and dsq: "ds = quad_forms Vi (sub_rows P x)"
    by (auto simp: row_dists_def split: sum.splits)
  from inv Vi have tl: "length (transpose Vi) = length x" by simp
  show ?thesis
    using rows quad_form_NaN_iff [OF _ tl]
    by (simp add: dsq quad_forms_def sub_rows_def)
next
  case False
  with ds have "ds = sq_norms (sub_rows P x)" by (simp add: row_dists_def)
  then show ?thesis
    using rows sq_norm_NaN_iff by (simp add: sq_norms_def sub_rows_def)
qed

lemma nanargmin_scan_None: "nanargmin_scan ds = None \<longleftrightarrow> (\<forall>d \<in> set ds. d = NaN)"
proof (induction ds)
  case Nil
  then show ?case by simp
next
  case (Cons d ds)
  then show ?case
    by (cases d; cases "nanargmin_scan ds") (auto split: if_splits)
qed

lemma nanargmin_scan_Some:
  "nanargmin_scan ds = Some (j, m) \<Longrightarrow>
     j < length ds \<and> ds ! j = Val m \<and>
     (\<forall>i < length ds. \<forall>v. ds ! i = Val v \<longrightarrow> m \<le> v) \<and>
     (\<forall>i < j. \<forall>v. ds ! i = Val v \<longrightarrow> m < v)"
proof (induction ds arbitrary: j m)
  case Nil
  then show ?case by simp
next
  case (Cons d ds)
  show ?case
  proof (cases "nanargmin_scan ds")
    case None
    then have all: "\<forall>i < length ds. ds ! i = NaN"
      by (simp add: nanargmin_scan_None all_set_conv_all_nth)
    from None Cons.prems obtain v where "d = Val v" "j = 0" "m = v"
      by (cases d) auto
    with all show ?thesis
      by (auto simp: nth_Cons split: nat.splits)
  next
    case (Some p)
    obtain j' m' where p: "p = (j', m')" by (cases p)
    note IH = Cons.IH [OF Some [unfolded p]]
    show ?thesis
    proof (cases d)
      case NaN
      with Some p Cons.prems have "j = Suc j'" "m = m'" by auto
      with IH NaN show ?thesis
        by (auto simp: nth_Cons less_Suc_eq_0_disj split: nat.splits)
    next
      case (Val v)
      show ?thesis
      proof (cases "v \<le> m'")
        case True
        with Some p Val Cons.prems have "j = 0" "m = v" by auto
        with True IH Val show ?thesis
          by (fastforce simp: nth_Cons split: nat.splits)
      next
        case False
        with Some p Val Cons.prems have "j = Suc j'" "m = m'" by auto
        with False IH Val show ?thesis
          by (auto simp: nth_Cons less_Suc_eq_0_disj split: nat.splits)
      qed
    qed
  qed
qed

lemma nanargmin_Inr:
  "nanargmin ds = Inr j \<Longrightarrow> j < length ds \<and> ds ! j \<noteq> NaN"
  using nanargmin_scan_Some [of ds j]
  by (auto simp: nanargmin_def split: option.splits)

lemma nanargmin_Inl:
  "nanargmin ds = Inl e \<Longrightarrow> (\<forall>d \<in> set ds. d = NaN)"
  using nanargmin_scan_None [of ds]
  by (auto simp: nanargmin_def split: option.splits)

subsection \<open>The greedy loop\<close>

text \<open>
  The loop invariant: every row of the pool has \<open>k\<close> entries, and the rows that hold
  not-a-number are those of the controls matched so far.  \<open>wor_loop_frame\<close> says what
  a finished loop has done, \<open>wor_loop_runs\<close> that it finishes when enough rows are left.
\<close>

lemma NaN_nan_row: "NaN \<in> set (nan_row r) \<longleftrightarrow> r \<noteq> []"
  by (cases r) (auto simp: nan_row_def)

lemma length_nan_row: "length (nan_row r) = length r"
  by (simp add: nan_row_def)

lemma wor_loop_frame:
  assumes "wor_loop mh V P X_t = Inr (js, P')"
    and "\<forall>r \<in> set P. length r = k" and "\<forall>x \<in> set X_t. length x = k" and "0 < k"
    and "\<forall>Vi. linalg_inv V = Inr Vi \<longrightarrow> length (transpose Vi) = k"
  shows "length js = length X_t \<and> distinct js \<and>
         (\<forall>j \<in> set js. j < length P \<and> NaN \<notin> set (P ! j)) \<and>
         length P' = length P \<and>
         (\<forall>j < length P. P' ! j = (if j \<in> set js then nan_row (P ! j) else P ! j))"
  using assms
proof (induction X_t arbitrary: P js P')
  case Nil
  then show ?case by simp
next
  case (Cons x X_t)
  from Cons.prems(1) obtain ds j js' where
    ds: "row_dists mh V (sub_rows P x) = Inr ds" and j: "nanargmin ds = Inr j"
    and rest: "wor_loop mh V (P[j := nan_row (P ! j)]) X_t = Inr (js', P')"
    and js: "js = j # js'"
    by (auto split: sum.splits prod.splits)
  let ?P1 = "P[j := nan_row (P ! j)]"
  from Cons.prems have lenx: "length x = k" by simp
  from row_dists_pool [OF ds] Cons.prems(2,5) lenx
  have dsP: "length ds = length P" "\<forall>i < length P. ds ! i = NaN \<longleftrightarrow> NaN \<in> set (P ! i)"
    by auto
  from nanargmin_Inr [OF j] dsP have jP: "j < length P" "NaN \<notin> set (P ! j)" by auto
  from jP(1) Cons.prems(2) have "length (P ! j) = k" by simp
  with \<open>0 < k\<close> have marked: "NaN \<in> set (?P1 ! j)"
    using jP(1) by (auto simp: NaN_nan_row)
  have rows1: "\<forall>r \<in> set ?P1. length r = k"
    using Cons.prems(2) \<open>length (P ! j) = k\<close>
    by (auto simp: length_nan_row dest!: set_update_subset_insert [THEN subsetD])
  from Cons.prems(3) have xs: "\<forall>x \<in> set X_t. length x = k" by simp
  note IH = Cons.IH [OF rest rows1 xs \<open>0 < k\<close> Cons.prems(5)]
  from IH marked have jnot: "j \<notin> set js'" by auto
  have others: "\<forall>i \<in> set js'. i < length P \<and> NaN \<notin> set (P ! i)"
  proof
    fix i assume i: "i \<in> set js'"
    with jnot have "i \<noteq> j" by auto
    then have "?P1 ! i = P ! i" by simp
    with IH i show "i < length P \<and> NaN \<notin> set (P ! i)" by auto
  qed
  show ?case
  proof (intro conjI)
    show "length js = length (x # X_t)" using IH js by simp
    show "distinct js" using IH js jnot by simp
    show "\<forall>i \<in> set js. i < length P \<and> NaN \<notin> set (P ! i)"
      using js jP others by simp
    show "length P' = length P" using IH by simp
    show "\<forall>i < length P. P' ! i = (if i \<in> set js then nan_row (P ! i) else P ! i)"
    proof (intro allI impI)
      fix i assume i: "i < length P"
      with IH have P': "P' ! i = (if i \<in> set js' then nan_row (?P1 ! i) else ?P1 ! i)"
        by simp
      show "P' ! i = (if i \<in> set js then nan_row (P ! i) else P ! i)"
      proof (cases "i = j")
        case True
        with P' jnot i js show ?thesis by simp
      next
        case False
        then have "?P1 ! i = P ! i" by simp
        with P' False js show ?thesis by simp
      qed
    qed
  qed
qed

lemma wor_loop_runs:
  assumes "\<forall>r \<in> set P. length r = k" and "\<forall>x \<in> set X_t. length x = k" and "0 < k"
    and "\<forall>Vi. linalg_inv V = Inr Vi \<longrightarrow> length (transpose Vi) = k"
    and "length X_t \<le> card {j. j < length P \<and> NaN \<notin> set (P ! j)}"
    and "mh \<and> X_t \<noteq> [] \<longrightarrow> (\<exists>Vi. linalg_inv V = Inr Vi)"
  shows "\<exists>js P'. wor_loop mh V P X_t = Inr (js, P')"
  using assms
proof (induction X_t arbitrary: P)
  case Nil
  then show ?case by simp
next
  case (Cons x X_t)
  let ?A = "{j. j < length P \<and> NaN \<notin> set (P ! j)}"
  from Cons.prems have lenx: "length x = k" by simp
  from Cons.prems(6) obtain ds where ds: "row_dists mh V (sub_rows P x) = Inr ds"
    by (cases mh) (auto simp: row_dists_def)
  from row_dists_pool [OF ds] Cons.prems(1,4) lenx
  have dsP: "length ds = length P" "\<forall>i < length P. ds ! i = NaN \<longleftrightarrow> NaN \<in> set (P ! i)"
    by auto
  have finA: "finite ?A" by simp
  have "?A \<noteq> {}"
  proof
    assume "?A = {}"
    then have "card ?A = 0" by (simp only: card.empty)
    with Cons.prems(5) show False by simp
  qed
  then obtain a where a: "a < length P" "NaN \<notin> set (P ! a)" by auto
  with dsP have "ds ! a \<noteq> NaN" "ds ! a \<in> set ds" by auto
  then have "\<not> (\<forall>d \<in> set ds. d = NaN)" by blast
  then obtain j where j: "nanargmin ds = Inr j"
    using nanargmin_Inl [of ds] by (cases "nanargmin ds") auto
  from nanargmin_Inr [OF j] dsP have jP: "j < length P" "NaN \<notin> set (P ! j)" by auto
  let ?P1 = "P[j := nan_row (P ! j)]"
  from jP(1) Cons.prems(1) have lenj: "length (P ! j) = k" by simp
  have rows1: "\<forall>r \<in> set ?P1. length r = k"
    using Cons.prems(1) lenj
    by (auto simp: length_nan_row dest!: set_update_subset_insert [THEN subsetD])
  have step: "NaN \<notin> set (?P1 ! i) \<longleftrightarrow> NaN \<notin> set (P ! i) \<and> i \<noteq> j" if "i < length P" for i
  proof (cases "i = j")
    case True
    with that lenj \<open>0 < k\<close> show ?thesis by (auto simp: NaN_nan_row)
  next
    case False
    then show ?thesis by simp
  qed
  have "{i. i < length ?P1 \<and> NaN \<notin> set (?P1 ! i)} = ?A - {j}"
    using step by auto
  moreover have "j \<in> ?A" using jP by simp
  ultimately have "card {i. i < length ?P1 \<and> NaN \<notin> set (?P1 ! i)} = card ?A - 1"
    using finA by simp
  with Cons.prems(5) have enough: "length X_t \<le> card {i. i < length ?P1 \<and> NaN \<notin> set (?P1 ! i)}"
    by simp
  from Cons.prems(2) have xs: "\<forall>x \<in> set X_t. length x = k" by simp
  from Cons.prems(6) have inv: "mh \<and> X_t \<noteq> [] \<longrightarrow> (\<exists>Vi. linalg_inv V = Inr Vi)" by auto
  from Cons.IH [OF rows1 xs \<open>0 < k\<close> Cons.prems(4) enough inv]
  obtain js P' where "wor_loop mh V ?P1 X_t = Inr (js, P')" by blast
  with ds j show ?case by simp
qed

lemma wor_loop_error:
  "wor_loop mh V P X_t = Inl e \<Longrightarrow> X_t \<noteq> []"
  by (cases X_t) auto

subsection \<open>Sorting by propensity score\<close>

lemma length_select_eq_mask:
  "length xs = length D \<Longrightarrow> length (select xs (eq_mask D v)) = length (filter (\<lambda>d. d = v) D)"
proof (induction xs D rule: list_induct2)
  case Nil
  then show ?case by (simp add: select_def eq_mask_def)
next
  case (Cons x xs d D)
  then show ?case by (simp add: select_def eq_mask_def)
qed

lemma set_select_subset: "set (select xs msk) \<subseteq> set xs"
  by (auto simp: select_def dest: set_zip_leftD)

lemma mset_argsort: "mset (argsort ps) = mset [0..<length ps]"
proof -
  let ?zs = "zip ps [0..<length ps]"
  have "mset (argsort ps) = image_mset snd (mset (sort_key fst ?zs))"
    unfolding argsort_def by (rule mset_map)
  also have "mset (sort_key fst ?zs) = mset ?zs" by (rule mset_sort)
  also have "image_mset snd (mset ?zs) = mset (map snd ?zs)" by (rule mset_map [symmetric])
  also have "map snd ?zs = [0..<length ps]" by (rule map_snd_zip) simp
  finally show ?thesis .
qed

lemma set_argsort: "set (rev (argsort ps)) = {..<length ps}"
proof -
  from mset_argsort have "set_mset (mset (argsort ps)) = set_mset (mset [0..<length ps])"
    by (rule arg_cong)
  then have "set (argsort ps) = set [0..<length ps]"
    by (simp only: set_mset_mset)
  then show ?thesis by (simp add: atLeast0LessThan)
qed

lemma mset_take_order:
  assumes "length ps = length xs"
  shows "mset (map (\<lambda>i. xs ! i) (rev (argsort ps))) = mset xs"
proof -
  have "mset (map (\<lambda>i. xs ! i) (rev (argsort ps))) = image_mset (\<lambda>i. xs ! i) (mset (argsort ps))"
    by simp
  also have "\<dots> = mset (map (\<lambda>i. xs ! i) [0..<length xs])"
    by (simp only: mset_argsort assms mset_map)
  also have "\<dots> = mset xs" by (simp add: map_nth)
  finally show ?thesis .
qed

lemma sort_by_pscore_Inr:
  assumes "logit D X = Inr ps" and "length ps = length D"
    and "length Y = length D" and "length X = length D"
  shows "sort_by_pscore logit Y D X =
           Inr (map (\<lambda>i. Y ! i) (rev (argsort ps)), map (\<lambda>i. D ! i) (rev (argsort ps)),
                map (\<lambda>i. X ! i) (rev (argsort ps)))"
  using assms set_argsort [of ps]
  by (simp add: sort_by_pscore_def take_idx_def Let_def)

lemma length_filter_mset_eq:
  "mset xs = mset ys \<Longrightarrow> length (filter P xs) = length (filter P ys)"
  by (metis mset_filter size_mset)

lemma length_transpose_rect:
  "xs \<noteq> [] \<Longrightarrow> \<forall>r \<in> set xs. length r = n \<Longrightarrow> length (transpose xs) = n"
proof -
  assume ne: "xs \<noteq> []" and rows: "\<forall>r \<in> set xs. length r = n"
  have "foldr (\<lambda>r. max (length r)) xs 0 = n" using ne rows
  proof (induction xs)
    case Nil
    then show ?case by simp
  next
    case (Cons r xs)
    then show ?case by (cases xs) auto
  qed
  then show ?thesis by (simp add: length_transpose)
qed

lemma linalg_inv_error: "linalg_inv V = Inl e \<Longrightarrow> e = LinAlgError"
  by (cases V) (auto simp: inv_mat_def Let_def split: if_splits)

lemma inv_mat_dims:
  "inv_mat V = Inr Vi \<Longrightarrow> length Vi = length V \<and> (\<forall>r \<in> set Vi. length r = length V)"
  by (auto simp: inv_mat_def Let_def split: if_splits)

lemma np_cov_inv_dims:
  assumes "linalg_inv (np_cov X) = Inr Vi" and "X \<noteq> []" and "\<forall>r \<in> set X. length r = k"
    and "0 < k"
  shows "length (transpose Vi) = k"
proof -
  from assms(1) obtain V where V: "np_cov X = Mat2 V" and Vi: "inv_mat V = Inr Vi"
    by (cases "np_cov X") auto
  have "length (transpose X) = k" using assms(2,3) by (rule length_transpose_rect)
  with V assms(2) have "length V = k"
    by (auto simp: np_cov_def Let_def split: if_splits)
  with inv_mat_dims [OF Vi] assms(4) have "Vi \<noteq> []" "\<forall>r \<in> set Vi. length r = k" by auto
  then show ?thesis by (rule length_transpose_rect)
qed

lemma lift_rows: "\<forall>r \<in> set X. length r = k \<Longrightarrow> \<forall>r \<in> set (lift X). length r = k"
  by (auto simp: lift_def)

lemma lift_no_NaN: "j < length X \<Longrightarrow> NaN \<notin> set (lift X ! j)"
  by (auto simp: lift_def)

lemma length_lift: "length (lift X) = length X"
  by (simp add: lift_def)

lemma greedy_match_total:
  assumes rows: "\<forall>r \<in> set X. length r = k" and k: "0 < k" and len: "length X = length D"
    and enough: "N_treated D \<le> N_control D"
  shows "(mh \<and> N_treated D \<noteq> 0 \<and> greedy_match mh D X = Inl LinAlgError) \<or>
         (\<exists>m pool. greedy_match mh D X = Inr (m, pool) \<and> distinct m \<and>
            length m = N_treated D \<and> (\<forall>j \<in> set m. j < N_control D))"
proof -
  let ?X_c = "select X (eq_mask D 0)" and ?X_t = "select X (eq_mask D 1)"
  let ?V = "np_cov X"
  have nt: "length ?X_t = N_treated D" and nc: "length ?X_c = N_control D"
    using len by (simp_all add: length_select_eq_mask N_treated_def N_control_def)
  have rc: "\<forall>r \<in> set (lift ?X_c). length r = k"
    using rows set_select_subset [of X "eq_mask D 0"] by (intro lift_rows) blast
  have rt: "\<forall>x \<in> set ?X_t. length x = k"
    using rows set_select_subset [of X "eq_mask D 1"] by blast
  have avail: "{j. j < length (lift ?X_c) \<and> NaN \<notin> set (lift ?X_c ! j)} = {..<length ?X_c}"
    by (auto simp: length_lift lift_no_NaN)
  show ?thesis
  proof (cases "X = []")
    case True
    then have "?X_t = []" "?X_c = []" by (simp_all add: select_def)
    then have "greedy_match mh D X = Inr ([], [])"
      by (simp add: greedy_match_def lift_def)
    moreover from nt \<open>?X_t = []\<close> have "N_treated D = 0" by simp
    ultimately show ?thesis by simp
  next
    case False
    have dims: "\<forall>Vi. linalg_inv ?V = Inr Vi \<longrightarrow> length (transpose Vi) = k"
      using np_cov_inv_dims [OF _ False rows k] by blast
    show ?thesis
    proof (cases "mh \<and> ?X_t \<noteq> [] \<and> (\<exists>e. linalg_inv ?V = Inl e)")
      case True
      then obtain e where e: "linalg_inv ?V = Inl e" by blast
      then have "e = LinAlgError" by (rule linalg_inv_error)
      with e True have "wor_loop mh ?V (lift ?X_c) ?X_t = Inl LinAlgError"
        by (cases ?X_t) (auto simp: row_dists_def)
      moreover have "N_treated D \<noteq> 0"
      proof
        assume "N_treated D = 0"
        with nt have "?X_t = []" by simp
        with True show False by simp
      qed
      ultimately show ?thesis using True by (simp add: greedy_match_def)
    next
      case False
      then have inv: "mh \<and> ?X_t \<noteq> [] \<longrightarrow> (\<exists>Vi. linalg_inv ?V = Inr Vi)"
        by (cases "linalg_inv ?V") auto
      have "length ?X_t \<le> card {j. j < length (lift ?X_c) \<and> NaN \<notin> set (lift ?X_c ! j)}"
        using enough nt nc by (simp add: avail)
      from wor_loop_runs [OF rc rt k dims this inv]
      obtain m pool where run: "wor_loop mh ?V (lift ?X_c) ?X_t = Inr (m, pool)" by blast
      from wor_loop_frame [OF run rc rt k dims] nt nc
      have "distinct m" "length m = N_treated D" "\<forall>j \<in> set m. j < N_control D"
        by (auto simp: length_lift)
      with run show ?thesis by (auto simp: greedy_match_def)
    qed
  qed
qed

lemma not_enough_controls_iff:
  assumes "set D \<subseteq> {0, 1}"
  shows "not_enough_controls D \<longleftrightarrow> N_control D < N_treated D"
proof -
  have "sum_list D = int (N_treated D) \<and> length D = N_control D + N_treated D"
    using assms unfolding N_treated_def N_control_def
  proof (induction D)
    case Nil
    then show ?case by simp
  next
    case (Cons d D)
    then show ?case by auto
  qed
  then show ?thesis by (simp add: not_enough_controls_def)
qed

subsection \<open>Injective assignment\<close>

text \<open>
  C2.  Let the data be well formed (\<open>Y\<close>, \<open>D\<close>, \<open>X\<close> of one length, \<open>k > 0\<close> covariates per
  row), let the ranker return one score per unit, and let there be at most as many
  treated units as controls.  Then the greedy path of the without-replacement matcher
  either stops at the failing inversion (Mahalanobis metric only), or produces an
  assignment with one control per treated unit in which no control index occurs twice:
  a control consumed for an earlier treated unit is not selected for a later one, and
  \<open>nanargmin\<close> never meets a pool without an available control.  For a treatment
  indicator with values 0 and 1 the greedy path is taken exactly when there are at most
  as many treated units as controls (\<open>not_enough_controls_iff\<close>).
\<close>

theorem without_replacement_injective:
  assumes shape: "length Y = length D" "length X = length D"
    and rows: "\<forall>r \<in> set X. length r = k" and k: "0 < k"
    and ranker: "logit D X = Inr ps" "length ps = length D"
    and enough: "N_treated D \<le> N_control D"
  shows "(mahalanobis \<and> N_treated D \<noteq> 0 \<and>
            MatchingWithoutReplacement_match logit mahalanobis Y D X = Inl LinAlgError) \<or>
         (\<exists>m pool. MatchingWithoutReplacement_match logit mahalanobis Y D X = Inr (m, pool) \<and>
            distinct m \<and> length m = N_treated D \<and> (\<forall>j \<in> set m. j < N_control D))"
proof -
  let ?ord = "rev (argsort ps)"
  let ?D' = "map (\<lambda>i. D ! i) ?ord" and ?X' = "map (\<lambda>i. X ! i) ?ord"
  have sorted: "MatchingWithoutReplacement_match logit mahalanobis Y D X
                  = greedy_match mahalanobis ?D' ?X'"
    by (simp add: MatchingWithoutReplacement_match_def sort_by_pscore_Inr [of logit D X ps Y, OF ranker shape])
  have mD: "mset ?D' = mset D" using ranker(2) by (rule mset_take_order)
  have nt: "N_treated ?D' = N_treated D"
    unfolding N_treated_def using mD by (rule length_filter_mset_eq)
  have nc: "N_control ?D' = N_control D"
    unfolding N_control_def using mD by (rule length_filter_mset_eq)
  have rows': "\<forall>r \<in> set ?X'. length r = k"
  proof
    fix r assume "r \<in> set ?X'"
    then obtain i where "i \<in> set ?ord" and r: "r = X ! i" by auto
    with set_argsort [of ps] ranker(2) shape(2) have "i < length X" by simp
    with r rows show "length r = k" by simp
  qed
  have len': "length ?X' = length ?D'" by simp
  from enough have enough': "N_treated ?D' \<le> N_control ?D'"
    by (simp only: nt nc)
  from greedy_match_total [OF rows' k len' enough', of mahalanobis]
  show ?thesis by (simp only: nt nc sorted)
qed

lemma greedy_example:
  "MatchingWithoutReplacement_match pscore_example False [0, 8, 10, 10] [0, 0, 1, 1]
     [[0], [4], [3], [5]] = Inr ([0, 1], [[NaN], [NaN]])"
  by code_simp

theorem without_replacement_injective_witness:
  "N_treated [0, 0, 1, 1] \<le> N_control [0, 0, 1, 1] \<and>
   MatchingWithoutReplacement_match pscore_example False [0, 8, 10, 10] [0, 0, 1, 1]
     [[0], [4], [3], [5]] = Inr ([0, 1], [[NaN], [NaN]]) \<and>
   distinct [0, 1 :: nat] \<and> N_treated [0, 0, 1, 1] = 2"
proof -
  have enough: "N_treated [0, 0, 1, 1] \<le> N_control [0, 0, 1, 1]"
    by (simp add: N_treated_def N_control_def)
  have rows: "\<forall>r \<in> set [[0], [4], [3], [5 :: real]]. length r = 1" by simp
  have ranker: "pscore_example [0, 0, 1, 1] [[0], [4], [3], [5]] = Inr [0, 1, 2, 3]"
    by code_simp
  from without_replacement_injective [of "[0, 8, 10, 10]" "[0, 0, 1, 1]" "[[0], [4], [3], [5]]" 1
      pscore_example "[0, 1, 2, 3]" False, OF _ _ rows _ ranker _ enough]
  have "\<exists>m pool. MatchingWithoutReplacement_match pscore_example False [0, 8, 10, 10]
          [0, 0, 1, 1] [[0], [4], [3], [5]] = Inr (m, pool) \<and> distinct m \<and>
          length m = N_treated [0, 0, 1, 1] \<and> (\<forall>j \<in> set m. j < N_control [0, 0, 1, 1])"
    by simp
  with greedy_example enough show ?thesis by auto
qed

subsection \<open>Bounds of the assignment\<close>

lemma ols_normal_coef_per_column: "coef_per_column ols_normal"
  unfolding coef_per_column_def ncols_def
proof (intro allI impI)
  fix y W p assume "ols_normal y W = Inr p"
  then obtain Gi where
    Gi: "inv_mat (map (\<lambda>a. map (\<lambda>b. dotp a b) (transpose W)) (transpose W)) = Inr Gi"
    and p: "p = map (\<lambda>r. dotp r (map (\<lambda>a. dotp a y) (transpose W))) Gi"
    by (auto simp: ols_normal_def Let_def split: sum.splits)
  from inv_mat_dims [OF Gi] p show "length p = length (transpose W)" by simp
qed

lemma raw_ITT_nth:
  "length Y_t = length m \<Longrightarrow> i < length m \<Longrightarrow> raw_ITT Y_c Y_t m ! i = Y_t ! i - Y_c ! (m ! i)"
  by (simp add: raw_ITT_def vsub_def)

lemma length_raw_ITT: "length Y_t = length m \<Longrightarrow> length (raw_ITT Y_c Y_t m) = length m"
  by (simp add: raw_ITT_def vsub_def)

lemma ncols_rect: "W \<noteq> [] \<Longrightarrow> \<forall>r \<in> set W. length r = n \<Longrightarrow> ncols W = n"
  unfolding ncols_def by (rule length_transpose_rect)

lemma add_constant_cases:
  assumes "add_constant x = Inr W"
  shows "x \<noteq> [] \<and> (W = x \<and> 0 < ncols x \<or> W = map ((#) 1) x)"
proof -
  have "0 < ncols x" if "has_nonzero_const x"
    using that by (cases "transpose x") (simp_all add: has_nonzero_const_def ncols_def)
  with assms show ?thesis
    by (auto simp: add_constant_def split: if_splits)
qed

lemma bias_corrected_ITT_formula:
  assumes res: "bias_corrected_ITT ols Y_c Y_t X_c X_t m = Inr itt"
    and contract: "coef_per_column ols"
    and rc: "\<forall>r \<in> set X_c. length r = k" and rt: "\<forall>r \<in> set X_t. length r = k"
    and lt: "length X_t = length m" and ly: "length Y_t = length m"
    and bound: "\<forall>j \<in> set m. j < length X_c"
  shows "effect_formula ols True Y_c Y_t X_c X_t m itt"
proof -
  let ?Y_m = "map (\<lambda>j. Y_c ! j) m" and ?X_m = "map (\<lambda>j. X_c ! j) m"
  from res obtain W params B where
    W: "add_constant ?X_m = Inr W" and p: "ols ?Y_m W = Inr params"
    and B: "mat_vec (map2 vsub X_t ?X_m) (tl params) = Inr B"
    and itt: "itt = vsub (vsub Y_t ?Y_m) B"
    by (auto simp: bias_corrected_ITT_def Let_def split: sum.splits)
  from add_constant_cases [OF W] have ne: "m \<noteq> []"
    and Wc: "W = ?X_m \<and> 0 < ncols ?X_m \<or> W = map ((#) 1) ?X_m"
    by auto
  have rm: "\<forall>r \<in> set ?X_m. length r = k" using rc bound by auto
  from B have Bdef: "B = map (\<lambda>r. dotp r (tl params)) (map2 vsub X_t ?X_m)"
    and rows: "\<forall>r \<in> set (map2 vsub X_t ?X_m). length r = length (tl params)"
    by (auto simp: mat_vec_def split: if_splits)
  have row0: "length (vsub (X_t ! 0) (?X_m ! 0)) = k"
    using ne lt rt rm by (auto simp: vsub_def)
  have "vsub (X_t ! 0) (?X_m ! 0) \<in> set (map2 vsub X_t ?X_m)"
  proof -
    have "0 < length (map2 vsub X_t ?X_m)" using ne lt by simp
    then have "map2 vsub X_t ?X_m ! 0 \<in> set (map2 vsub X_t ?X_m)" by (rule nth_mem)
    moreover have "map2 vsub X_t ?X_m ! 0 = vsub (X_t ! 0) (?X_m ! 0)"
      using ne lt by simp
    ultimately show ?thesis by simp
  qed
  with rows row0 have lp: "length (tl params) = k" by auto
  from contract p have pc: "length params = ncols W" by (simp add: coef_per_column_def)
  have Weq: "W = map ((#) 1) ?X_m"
  proof (rule ccontr)
    assume "W \<noteq> map ((#) 1) ?X_m"
    with Wc have Wx: "W = ?X_m" and pos: "0 < ncols ?X_m" by simp_all
    from ne rm have "ncols ?X_m = k" by (intro ncols_rect) auto
    with pc lp Wx pos have "k = k - 1 \<and> 0 < k" by (cases params) auto
    then show False by arith
  qed
  have leni: "length itt = length m"
    using itt Bdef lt ly by (simp add: vsub_def)
  have nth: "itt ! i = (Y_t ! i - Y_c ! (m ! i)) - dotp (vsub (X_t ! i) (X_c ! (m ! i))) (tl params)"
    if "i < length m" for i
    using that itt Bdef lt ly by (simp add: vsub_def)
  have eq: "map ((#) 1) ?X_m = map (\<lambda>j. 1 # X_c ! j) m"
    by (simp only: map_map comp_def)
  from p have "ols ?Y_m (map (\<lambda>j. 1 # X_c ! j) m) = Inr params"
    unfolding Weq eq .
  with leni nth show ?thesis
    unfolding effect_formula_def by (simp only: if_True) blast
qed


lemma row_dists_length: "row_dists mh V (sub_rows P x) = Inr ds \<Longrightarrow> length ds = length P"
  by (auto simp: row_dists_def quad_forms_def sq_norms_def sub_rows_def split: if_splits sum.splits)

lemma argmin_bound: "argmin ds = Inr j \<Longrightarrow> j < length ds"
proof (cases "NaN \<in> set ds")
  case True
  assume "argmin ds = Inr j"
  with True have j: "j = length (takeWhile (\<lambda>d. d \<noteq> NaN) ds)" by (simp add: argmin_def)
  from True have "length (takeWhile (\<lambda>d. d \<noteq> NaN) ds) < length ds"
    by (induction ds) auto
  with j show ?thesis by simp
next
  case False
  assume "argmin ds = Inr j"
  with False have "nanargmin ds = Inr j" by (simp add: argmin_def)
  then show ?thesis by (simp add: nanargmin_Inr)
qed

lemma wr_loop_bounds:
  assumes "wr_loop mh V P X_t = Inr m"
  shows "length m = length X_t \<and> (\<forall>j \<in> set m. j < length P)"
proof -
  from wr_loop_nth [OF assms] have len: "length m = length X_t"
    and each: "\<forall>i < length X_t. \<exists>ds. row_dists mh V (sub_rows P (X_t ! i)) = Inr ds \<and>
                 argmin ds = Inr (m ! i)"
    by auto
  have "m ! i < length P" if "i < length m" for i
  proof -
    from each that len obtain ds where "row_dists mh V (sub_rows P (X_t ! i)) = Inr ds"
      and "argmin ds = Inr (m ! i)" by auto
    then show ?thesis using row_dists_length argmin_bound by fastforce
  qed
  with len show ?thesis by (auto simp: in_set_conv_nth)
qed

lemma wor_loop_bounds:
  "wor_loop mh V P X_t = Inr (m, P') \<Longrightarrow> length m = length X_t \<and> (\<forall>j \<in> set m. j < length P)"
proof (induction X_t arbitrary: P m P')
  case Nil
  then show ?case by simp
next
  case (Cons x X_t)
  from Cons.prems obtain ds j js where
    ds: "row_dists mh V (sub_rows P x) = Inr ds" and j: "nanargmin ds = Inr j"
    and rest: "wor_loop mh V (P[j := nan_row (P ! j)]) X_t = Inr (js, P')"
    and m: "m = j # js"
    by (auto split: sum.splits prod.splits)
  from row_dists_length [OF ds] nanargmin_Inr [OF j] have "j < length P" by simp
  with Cons.IH [OF rest] m show ?case by simp
qed

lemma sort_by_pscore_shape:
  assumes "sort_by_pscore logit Y D X = Inr (Y', D', X')"
  shows "length Y' = length D' \<and> length X' = length D' \<and> set X' \<subseteq> set X"
proof -
  from assms obtain ord where "take_idx Y ord = Inr Y'" "take_idx D ord = Inr D'"
    "take_idx X ord = Inr X'"
    by (auto simp: sort_by_pscore_def Let_def split: sum.splits)
  then show ?thesis
    by (auto simp: take_idx_def split: if_splits)
qed

lemma effect_formula_of_run:
  assumes contract: "coef_per_column ols"
    and shape: "length Y = length D" "length X = length D" "\<forall>r \<in> set X. length r = k"
    and len: "length m = length (select X (eq_mask D 1))"
    and bound: "\<forall>j \<in> set m. j < length (select X (eq_mask D 0))"
    and run: "(if bc then bias_corrected_ITT ols (select Y (eq_mask D 0)) (select Y (eq_mask D 1))
                 (select X (eq_mask D 0)) (select X (eq_mask D 1)) m
               else Inr (raw_ITT (select Y (eq_mask D 0)) (select Y (eq_mask D 1)) m)) = Inr itt"
  shows "length m = N_treated D \<and>
         effect_formula ols bc (select Y (eq_mask D 0)) (select Y (eq_mask D 1))
           (select X (eq_mask D 0)) (select X (eq_mask D 1)) m itt"
proof -
  let ?Y_c = "select Y (eq_mask D 0)" and ?Y_t = "select Y (eq_mask D 1)"
  let ?X_c = "select X (eq_mask D 0)" and ?X_t = "select X (eq_mask D 1)"
  have nt: "length ?X_t = N_treated D" "length ?Y_t = N_treated D"
    using shape by (simp_all add: length_select_eq_mask N_treated_def)
  have rc: "\<forall>r \<in> set ?X_c. length r = k" and rt: "\<forall>r \<in> set ?X_t. length r = k"
    using shape(3) set_select_subset [of X] by blast+
  from len nt have lt: "length ?X_t = length m" and ly: "length ?Y_t = length m" by simp_all
  have "effect_formula ols bc ?Y_c ?Y_t ?X_c ?X_t m itt"
  proof (cases bc)
    case True
    with run have "bias_corrected_ITT ols ?Y_c ?Y_t ?X_c ?X_t m = Inr itt" by simp
    from bias_corrected_ITT_formula [OF this contract rc rt lt ly bound] True
    show ?thesis by simp
  next
    case False
    with run have "itt = raw_ITT ?Y_c ?Y_t m" by simp
    with False ly show ?thesis
      by (simp add: effect_formula_def raw_ITT_nth length_raw_ITT)
  qed
  with len nt show ?thesis by simp
qed

subsection \<open>Individual effects\<close>

text \<open>
  C3.  For well-formed data and a regression routine that returns one coefficient per
  design column: whenever either matcher produces individual effects, they are those of
  \<open>effect_formula\<close> for the assignment it computed.  With bias correction the regression
  is the one with intercept: had \<open>add_constant\<close> left the column of ones out, the
  coefficient vector would be one short and the product with the covariate differences
  would raise.  For the matcher without replacement the covariates of the controls are
  those of the sorted data, unmarked.
\<close>

theorem matching_individual_effects:
  assumes contract: "coef_per_column ols"
    and shape: "length Y = length D" "length X = length D" "\<forall>r \<in> set X. length r = k"
  shows "(MatchingWithReplacement_ITT ols Y D X mahalanobis bias_correction = Inr itt \<longrightarrow>
            (\<exists>m. MatchingWithReplacement_match mahalanobis D X = Inr m \<and>
                 length m = N_treated D \<and>
                 effect_formula ols bias_correction
                   (select Y (eq_mask D 0)) (select Y (eq_mask D 1))
                   (select X (eq_mask D 0)) (select X (eq_mask D 1)) m itt)) \<and>
         (MatchingWithoutReplacement_ITT ols logit Y D X mahalanobis bias_correction = Inr itt \<longrightarrow>
            (\<exists>Y' D' X' m pool. sort_by_pscore logit Y D X = Inr (Y', D', X') \<and>
                 greedy_match mahalanobis D' X' = Inr (m, pool) \<and>
                 length m = N_treated D' \<and>
                 effect_formula ols bias_correction
                   (select Y' (eq_mask D' 0)) (select Y' (eq_mask D' 1))
                   (select X' (eq_mask D' 0)) (select X' (eq_mask D' 1)) m itt))"
proof (intro conjI impI)
  assume res: "MatchingWithReplacement_ITT ols Y D X mahalanobis bias_correction = Inr itt"
  then obtain m where m: "MatchingWithReplacement_match mahalanobis D X = Inr m"
    and run: "(if bias_correction
               then bias_corrected_ITT ols (select Y (eq_mask D 0)) (select Y (eq_mask D 1))
                 (select X (eq_mask D 0)) (select X (eq_mask D 1)) m
               else Inr (raw_ITT (select Y (eq_mask D 0)) (select Y (eq_mask D 1)) m)) = Inr itt"
    by (auto simp: MatchingWithReplacement_ITT_def Let_def split: sum.splits if_splits)
  from m have "wr_loop mahalanobis (np_cov X) (lift (select X (eq_mask D 0)))
                 (select X (eq_mask D 1)) = Inr m"
    by (simp add: MatchingWithReplacement_match_def)
  from wr_loop_bounds [OF this]
  have len: "length m = length (select X (eq_mask D 1))"
    and bound: "\<forall>j \<in> set m. j < length (select X (eq_mask D 0))"
    by (simp_all add: length_lift)
  from effect_formula_of_run [OF contract shape len bound run] m
  show "\<exists>m. MatchingWithReplacement_match mahalanobis D X = Inr m \<and>
             length m = N_treated D \<and>
             effect_formula ols bias_correction
               (select Y (eq_mask D 0)) (select Y (eq_mask D 1))
               (select X (eq_mask D 0)) (select X (eq_mask D 1)) m itt"
    by blast
next
  assume res: "MatchingWithoutReplacement_ITT ols logit Y D X mahalanobis bias_correction = Inr itt"
  then obtain Y' D' X' where sorted: "sort_by_pscore logit Y D X = Inr (Y', D', X')"
    and g: "greedy_ITT ols Y' D' X' mahalanobis bias_correction = Inr itt"
    by (auto simp: MatchingWithoutReplacement_ITT_def split: sum.splits)
  from sort_by_pscore_shape [OF sorted] shape(3)
  have shape': "length Y' = length D'" "length X' = length D'" "\<forall>r \<in> set X'. length r = k"
    by auto
  from g obtain m pool where m: "greedy_match mahalanobis D' X' = Inr (m, pool)"
    and run: "(if bias_correction
               then bias_corrected_ITT ols (select Y' (eq_mask D' 0)) (select Y' (eq_mask D' 1))
                 (select X' (eq_mask D' 0)) (select X' (eq_mask D' 1)) m
               else Inr (raw_ITT (select Y' (eq_mask D' 0)) (select Y' (eq_mask D' 1)) m)) = Inr itt"
    by (auto simp: greedy_ITT_def Let_def split: sum.splits if_splits)
  from m have "wor_loop mahalanobis (np_cov X') (lift (select X' (eq_mask D' 0)))
                 (select X' (eq_mask D' 1)) = Inr (m, pool)"
    by (simp add: greedy_match_def)
  from wor_loop_bounds [OF this]
  have len: "length m = length (select X' (eq_mask D' 1))"
    and bound: "\<forall>j \<in> set m. j < length (select X' (eq_mask D' 0))"
    by (simp_all add: length_lift)
  from effect_formula_of_run [OF contract shape' len bound run] sorted m
  show "\<exists>Y' D' X' m pool. sort_by_pscore logit Y D X = Inr (Y', D', X') \<and>
          greedy_match mahalanobis D' X' = Inr (m, pool) \<and>
          length m = N_treated D' \<and>
          effect_formula ols bias_correction
            (select Y' (eq_mask D' 0)) (select Y' (eq_mask D' 1))
            (select X' (eq_mask D' 0)) (select X' (eq_mask D' 1)) m itt"
    by blast
qed


lemma effects_example:
  "MatchingWithReplacement_ITT ols_normal [0, 8, 10, 10, 10] [0, 0, 1, 1, 1]
     [[0], [4], [1], [3], [5]] False True = Inr [8, 4, 0]"
  by code_simp

lemma effects_example_match:
  "MatchingWithReplacement_match False [0, 0, 1, 1, 1] [[0], [4], [1], [3], [5]] = Inr [0, 1, 1]"
  by code_simp

theorem matching_individual_effects_witness:
  "coef_per_column ols_normal \<and>
   MatchingWithReplacement_ITT ols_normal [0, 8, 10, 10, 10] [0, 0, 1, 1, 1]
     [[0], [4], [1], [3], [5]] False True = Inr [8, 4, 0] \<and>
   effect_formula ols_normal True [0, 8] [10, 10, 10] [[0], [4]] [[1], [3], [5]] [0, 1, 1] [8, 4, 0]"
proof -
  have rows: "\<forall>r \<in> set [[0], [4], [1], [3], [5 :: real]]. length r = 1" by simp
  from matching_individual_effects [OF ols_normal_coef_per_column _ _ rows,
      of "[0, 8, 10, 10, 10]" "[0, 0, 1, 1, 1]" False True "[8, 4, 0]"]
    effects_example effects_example_match
  have "effect_formula ols_normal True
          (select [0, 8, 10, 10, 10] (eq_mask [0, 0, 1, 1, 1] 0))
          (select [0, 8, 10, 10, 10] (eq_mask [0, 0, 1, 1, 1] 1))
          (select [[0], [4], [1], [3], [5]] (eq_mask [0, 0, 1, 1, 1] 0))
          (select [[0], [4], [1], [3], [5]] (eq_mask [0, 0, 1, 1, 1] 1)) [0, 1, 1] [8, 4, 0]"
    by simp
  then have "effect_formula ols_normal True [0, 8] [10, 10, 10] [[0], [4]] [[1], [3], [5]]
               [0, 1, 1] [8, 4, 0]"
    by (simp add: select_def eq_mask_def)
  with ols_normal_coef_per_column effects_example show ?thesis by simp
qed

subsection \<open>The fallback to matching with replacement\<close>

text \<open>
  When the guard holds, the without-replacement entry point returns what
  \<open>MatchingWithReplacement\<close> returns with bias correction on, whatever its own
  \<open>bias_correction\<close> argument is.
\<close>

lemma fallback_call:
  "not_enough_controls D \<Longrightarrow>
     MatchingWithoutReplacement ols logit Y D X mahalanobis bias_correction
       = MatchingWithReplacement ols Y D X mahalanobis True"
  by (simp add: MatchingWithoutReplacement_def)

text \<open>
  C1.  With three treated units and two controls, the Euclidean metric and bias correction
  off, the without-replacement entry point returns 4, the bias-corrected estimate, and
  not 14/3, which \<open>MatchingWithReplacement\<close> returns for the same flags.
\<close>

theorem fallback_drops_bias_correction:
  "not_enough_controls [0, 0, 1, 1, 1] \<and>
   MatchingWithoutReplacement ols_normal pscore_example [0, 8, 10, 10, 10] [0, 0, 1, 1, 1]
     [[0], [4], [1], [3], [5]] False False = Inr (Val 4) \<and>
   MatchingWithReplacement ols_normal [0, 8, 10, 10, 10] [0, 0, 1, 1, 1]
     [[0], [4], [1], [3], [5]] False False = Inr (Val (14 / 3)) \<and>
   MatchingWithReplacement ols_normal [0, 8, 10, 10, 10] [0, 0, 1, 1, 1]
     [[0], [4], [1], [3], [5]] False True = Inr (Val 4)"
proof (intro conjI)
  show g: "not_enough_controls [0, 0, 1, 1, 1]"
    by (simp add: not_enough_controls_def)
  show t: "MatchingWithReplacement ols_normal [0, 8, 10, 10, 10] [0, 0, 1, 1, 1]
             [[0], [4], [1], [3], [5]] False True = Inr (Val 4)"
    by code_simp
  show "MatchingWithReplacement ols_normal [0, 8, 10, 10, 10] [0, 0, 1, 1, 1]
          [[0], [4], [1], [3], [5]] False False = Inr (Val (14 / 3))"
    by code_simp
  show "MatchingWithoutReplacement ols_normal pscore_example [0, 8, 10, 10, 10] [0, 0, 1, 1, 1]
          [[0], [4], [1], [3], [5]] False False = Inr (Val 4)"
    using fallback_call [OF g] t by simp
qed

end
